theory Spec2Isabelle
  imports Main "HOL-Library.Sublist" "HOL-Library.Multiset"
begin

section \<open>JavaScript strings\<close>

text \<open>
  A JavaScript string is a sequence of UTF-16 code units; \<open>length\<close>, \<open>slice\<close>,
  \<open>indexOf\<close> and the offsets of a regular-expression match all count code units.
  A string is therefore a list of code units, each an integer.
\<close>

type_synonym jsstring = "int list"

definition str :: "string \<Rightarrow> jsstring" where
  "str s = map of_char s"

definition is_space :: "int \<Rightarrow> bool" where
  \<comment> \<open>\<open>\s\<close> of a regular expression, and what \<open>trim\<close> removes\<close>
  "is_space c =
     (c = 9 \<or> c = 10 \<or> c = 11 \<or> c = 12 \<or> c = 13 \<or> c = 32 \<or> c = 160 \<or> c = 5760
      \<or> (8192 \<le> c \<and> c \<le> 8202) \<or> c = 8232 \<or> c = 8233 \<or> c = 8239 \<or> c = 8287
      \<or> c = 12288 \<or> c = 65279)"

text \<open>
  A regular expression with the flag \<open>u\<close> reads its input code point by code
  point: a high surrogate followed by a low surrogate is one code point of two
  units, every other unit is a code point of its own. \<open>chunks\<close> cuts a string into
  the units of its code points, and \<open>cp_of\<close> is the code point of a chunk.
\<close>

definition is_high :: "int \<Rightarrow> bool" where
  "is_high c = (55296 \<le> c \<and> c \<le> 56319)"

definition is_low :: "int \<Rightarrow> bool" where
  "is_low c = (56320 \<le> c \<and> c \<le> 57343)"

fun chunks :: "jsstring \<Rightarrow> jsstring list" where
  "chunks (h # l # rest) =
     (if is_high h \<and> is_low l then [h, l] # chunks rest else [h] # chunks (l # rest))"
| "chunks [h] = [[h]]"
| "chunks [] = []"

definition cp_of :: "jsstring \<Rightarrow> int" where
  "cp_of ch =
     (case ch of
        [h, l] \<Rightarrow> 65536 + (h - 55296) * 1024 + (l - 56320)
      | [h] \<Rightarrow> h
      | _ \<Rightarrow> 0)"

definition code_points :: "jsstring \<Rightarrow> int list" where
  "code_points s = map cp_of (chunks s)"

text \<open>The shape of a list of chunks: no high surrogate is left alone before a low one.\<close>

fun wf_chunks :: "jsstring list \<Rightarrow> bool" where
  "wf_chunks [] = True"
| "wf_chunks (c # cs) =
     (((\<exists>u. c = [u] \<and> \<not> (is_high u \<and> cs \<noteq> [] \<and> is_low (hd (hd cs))))
       \<or> (\<exists>h l. c = [h, l] \<and> is_high h \<and> is_low l))
      \<and> wf_chunks cs)"

section \<open>The tables of the language\<close>

text \<open>
  The Unicode tables belong to the JavaScript engine, not to the repository:
  \<open>toLowerCase\<close> (a function of the whole string), the classes \<open>\p{L}\<close>, \<open>\p{N}\<close>
  and \<open>\p{P}\<close> of code points, and the simple case folding that a regular
  expression with the flags \<open>iu\<close> compares. They are a parameter of every
  function that uses them, and every theorem about all inputs holds for all
  tables.
\<close>

record CharTables =
  isLetter :: "int \<Rightarrow> bool"
  isNumber :: "int \<Rightarrow> bool"
  isPunct :: "int \<Rightarrow> bool"
  toLowerCase :: "jsstring \<Rightarrow> jsstring"
  caseFold :: "int \<Rightarrow> int"

text \<open>
  The tables written out for Basic Latin, the Latin-1 Supplement and U+0130
  (LATIN CAPITAL LETTER I WITH DOT ABOVE, whose lower case is the two units
  U+0069 U+0307). Only the worked examples use them, on strings made of these
  code units.
\<close>

definition latin_punct :: "int \<Rightarrow> bool" where
  "latin_punct c =
     (c = 33 \<or> c = 34 \<or> c = 35 \<or> c = 37 \<or> c = 38 \<or> c = 39 \<or> c = 40 \<or> c = 41
      \<or> c = 42 \<or> c = 44 \<or> c = 45 \<or> c = 46 \<or> c = 47 \<or> c = 58 \<or> c = 59 \<or> c = 63
      \<or> c = 64 \<or> c = 91 \<or> c = 92 \<or> c = 93 \<or> c = 95 \<or> c = 123 \<or> c = 125
      \<or> c = 161 \<or> c = 167 \<or> c = 171 \<or> c = 182 \<or> c = 183 \<or> c = 187 \<or> c = 191)"

definition latin_letter :: "int \<Rightarrow> bool" where
  "latin_letter c =
     ((65 \<le> c \<and> c \<le> 90) \<or> (97 \<le> c \<and> c \<le> 122) \<or> c = 170 \<or> c = 181 \<or> c = 186
      \<or> (192 \<le> c \<and> c \<le> 214) \<or> (216 \<le> c \<and> c \<le> 246) \<or> (248 \<le> c \<and> c \<le> 255)
      \<or> c = 304)"

definition latin_number :: "int \<Rightarrow> bool" where
  "latin_number c =
     ((48 \<le> c \<and> c \<le> 57) \<or> c = 178 \<or> c = 179 \<or> c = 185 \<or> (188 \<le> c \<and> c \<le> 190))"

definition has_upper :: "int \<Rightarrow> bool" where
  \<comment> \<open>the code units with a one-unit lower case 32 places up\<close>
  "has_upper c = ((65 \<le> c \<and> c \<le> 90) \<or> (192 \<le> c \<and> c \<le> 214) \<or> (216 \<le> c \<and> c \<le> 222))"

definition latin_lower_unit :: "int \<Rightarrow> jsstring" where
  "latin_lower_unit c =
     (if has_upper c then [c + 32] else if c = 304 then [105, 775] else [c])"

definition latin_fold :: "int \<Rightarrow> int" where
  "latin_fold c = (if has_upper c then c + 32 else if c = 181 then 956 else c)"

definition latin_tables :: CharTables where
  "latin_tables =
     \<lparr>isLetter = latin_letter, isNumber = latin_number, isPunct = latin_punct,
      toLowerCase = (\<lambda>s. concat (map latin_lower_unit s)),
      caseFold = latin_fold\<rparr>"

text \<open>
  Three facts of the language that some theorems below need of the tables.
  Lower-casing maps no string but the empty one to the empty string. It keeps
  white space at either end of a string and puts none there. On Basic Latin the
  punctuation and the lower case are the familiar ones.
\<close>

definition lower_keeps_empty :: "CharTables \<Rightarrow> bool" where
  "lower_keeps_empty T = (\<forall>s. toLowerCase T s = [] \<longleftrightarrow> s = [])"

definition lower_keeps_space :: "CharTables \<Rightarrow> bool" where
  "lower_keeps_space T =
     (\<forall>s. s \<noteq> [] \<longrightarrow>
        (is_space (hd (toLowerCase T s)) \<longleftrightarrow> is_space (hd s))
        \<and> (is_space (last (toLowerCase T s)) \<longleftrightarrow> is_space (last s)))"



section \<open>String built-ins\<close>

definition trim :: "jsstring \<Rightarrow> jsstring" where
  "trim s = rev (dropWhile is_space (rev (dropWhile is_space s)))"

definition js_slice :: "jsstring \<Rightarrow> int \<Rightarrow> int \<Rightarrow> jsstring" where
  \<comment> \<open>\<open>s.slice(a, b)\<close>: a negative index counts from the end, both are clamped\<close>
  "js_slice s a b =
     (let len = int (length s);
          from = (if a < 0 then max (len + a) 0 else min a len);
          to = (if b < 0 then max (len + b) 0 else min b len)
      in take (nat (to - from)) (drop (nat from) s))"

definition js_slice_from :: "jsstring \<Rightarrow> int \<Rightarrow> jsstring" where
  \<comment> \<open>\<open>s.slice(a)\<close>\<close>
  "js_slice_from s a = js_slice s a (int (length s))"

fun indexOf_from :: "jsstring \<Rightarrow> jsstring \<Rightarrow> int \<Rightarrow> int" where
  "indexOf_from [] n i = (if n = [] then i else - 1)"
| "indexOf_from (c # cs) n i = (if prefix n (c # cs) then i else indexOf_from cs n (i + 1))"

definition indexOf :: "jsstring \<Rightarrow> jsstring \<Rightarrow> int" where
  \<comment> \<open>\<open>h.indexOf(n)\<close>: the first offset at which \<open>n\<close> occurs, or \<open>-1\<close>\<close>
  "indexOf h n = indexOf_from h n 0"

definition mark_open :: jsstring where
  \<open>mark_open = str ''<mark class="search-highlight">''\<close>

definition mark_close :: jsstring where
  "mark_close = str ''</mark>''"

definition ellipsis :: jsstring where
  \<comment> \<open>U+2026\<close>
  "ellipsis = [8230]"

section \<open>Text segmentation\<close>

text \<open>
  \<open>TRIM_START_PUNCT_RE = /^[\p{P}\s]+/u\<close> and \<open>TRIM_END_PUNCT_RE = /[\p{P}\s]+$/u\<close>,
  each used only in \<open>replace(re, '')\<close>: the longest run of code points that are
  punctuation or white space is removed at the start (at the end).
\<close>

definition punct_or_space :: "CharTables \<Rightarrow> jsstring \<Rightarrow> bool" where
  \<comment> \<open>the class \<open>[\p{P}\s]\<close>, of the code point of a chunk\<close>
  "punct_or_space T ch = (isPunct T (cp_of ch) \<or> is_space (cp_of ch))"

definition trimStartPunct :: "CharTables \<Rightarrow> jsstring \<Rightarrow> jsstring" where
  "trimStartPunct T s = concat (dropWhile (punct_or_space T) (chunks s))"

definition trimEndPunct :: "CharTables \<Rightarrow> jsstring \<Rightarrow> jsstring" where
  "trimEndPunct T s = concat (rev (dropWhile (punct_or_space T) (rev (chunks s))))"

definition normalize_str :: "CharTables \<Rightarrow> jsstring \<Rightarrow> jsstring" where
  "normalize_str T s = toLowerCase T s"

record SentenceSpan =
  s_text :: jsstring
  s_start :: nat
  s_end :: nat

definition is_terminator :: "int \<Rightarrow> bool" where
  \<comment> \<open>\<open>[.!?]\<close>\<close>
  "is_terminator c = (c = 46 \<or> c = 33 \<or> c = 63)"

definition is_body :: "int \<Rightarrow> bool" where
  \<comment> \<open>\<open>[^.!?\n]\<close>\<close>
  "is_body c = (\<not> is_terminator c \<and> c \<noteq> 10)"

text \<open>
  One attempt of \<open>/([^.!?\n]+[.!?]*)(\s+|$)/\<close> at the start of \<open>s\<close>, as the
  backtracking matcher runs it. The body and the terminators are taken greedily;
  the second group then needs white space or the end of the input. When it finds
  neither, giving back terminators cannot help (the next unit is then a
  terminator), so the body is shortened, one unit at a time, until the unit after
  it is white space. The result is the length of group 1 and the length of the
  whole match.
\<close>

definition sentence_match :: "jsstring \<Rightarrow> (nat \<times> nat) option" where
  "sentence_match s =
     (let b = length (takeWhile is_body s) in
      if b = 0 then None
      else
        let t = length (takeWhile is_terminator (drop b s));
            rest = drop (b + t) s
        in if rest = [] then Some (b + t, b + t)
           else if is_space (hd rest)
             then Some (b + t, b + t + length (takeWhile is_space rest))
           else (case find (\<lambda>k. is_space (s ! k)) (rev [1..<b]) of
                   None \<Rightarrow> None
                 | Some k \<Rightarrow> Some (k, k + length (takeWhile is_space (drop k s)))))"

lemma find_SomeE: "find P xs = Some k \<Longrightarrow> k \<in> set xs \<and> P k"
  by (induction xs) (auto split: if_splits)

lemma sentence_match_pos:
  assumes "sentence_match s = Some (n, l)"
  shows "0 < n \<and> n \<le> l \<and> l \<le> length s"
proof -
  let ?b = "length (takeWhile is_body s)"
  let ?t = "length (takeWhile is_terminator (drop ?b s))"
  let ?rest = "drop (?b + ?t) s"
  have b: "0 < ?b" using assms by (auto simp: sentence_match_def Let_def split: if_splits)
  have bt: "?b + ?t \<le> length s"
    using length_takeWhile_le [of is_terminator "drop ?b s"] length_takeWhile_le [of is_body s]
    by simp
  have ws: "?b + ?t + length (takeWhile is_space ?rest) \<le> length s"
    using length_takeWhile_le [of is_space ?rest] bt by simp
  have bk: "k + length (takeWhile is_space (drop k s)) \<le> length s" if "k < ?b" for k
    using length_takeWhile_le [of is_space "drop k s"] length_takeWhile_le [of is_body s] that
    by simp
  consider (eoi) "?rest = []" | (sp) "?rest \<noteq> []" "is_space (hd ?rest)"
    | (bt) "?rest \<noteq> []" "\<not> is_space (hd ?rest)" by blast
  then show ?thesis
  proof cases
    case eoi
    with assms b have "n = ?b + ?t \<and> l = ?b + ?t"
      by (auto simp: sentence_match_def Let_def)
    with b bt show ?thesis by simp
  next
    case sp
    with assms b have "n = ?b + ?t \<and> l = ?b + ?t + length (takeWhile is_space ?rest)"
      by (auto simp: sentence_match_def Let_def)
    with b ws show ?thesis by simp
  next
    case bt
    with assms b obtain k where k: "find (\<lambda>k. is_space (s ! k)) (rev [1..<?b]) = Some k"
      and nl: "n = k" "l = k + length (takeWhile is_space (drop k s))"
      by (auto simp: sentence_match_def Let_def split: option.splits)
    from find_SomeE [OF k] have "1 \<le> k" "k < ?b" by auto
    with nl bk [of k] show ?thesis by simp
  qed
qed

function split_loop :: "nat \<Rightarrow> jsstring \<Rightarrow> SentenceSpan list" where
  "split_loop off s =
     (if s = [] then []
      else case sentence_match s of
             None \<Rightarrow> split_loop (off + 1) (tl s)
           | Some (n, l) \<Rightarrow>
               (let sentence = take n s in
                (if trim sentence = [] then []
                 else [\<lparr>s_text = sentence, s_start = off, s_end = off + n\<rparr>])
                @ split_loop (off + l) (drop l s)))"
  by pat_completeness auto
termination
proof (relation "measure (\<lambda>(off, s). length s)")
  show "wf (measure (\<lambda>(off, s). length s))" by simp
next
  fix off :: nat and s :: jsstring
  assume "s \<noteq> []"
  then show "((off + 1, tl s), (off, s)) \<in> measure (\<lambda>(off, s). length s)"
    by (cases s) simp_all
next
  fix off :: nat and s :: jsstring and x2 :: "nat \<times> nat" and x y xa
  assume "s \<noteq> []" and m: "sentence_match s = Some x2" and xy: "(x, y) = x2"
  from m xy have "sentence_match s = Some (x, y)" by simp
  from sentence_match_pos [OF this] \<open>s \<noteq> []\<close>
  show "((off + y, drop y s), (off, s)) \<in> measure (\<lambda>(off, s). length s)"
    by simp
qed

declare split_loop.simps [simp del]

definition splitIntoSentences :: "jsstring \<Rightarrow> SentenceSpan list" where
  "splitIntoSentences input =
     (let out = split_loop 0 input in
      if out = [] \<and> input \<noteq> []
        then [\<lparr>s_text = input, s_start = 0, s_end = length input\<rparr>]
      else out)"

section \<open>Match predicate\<close>

datatype MatchMode = Contains | StartsWith | EndsWith | OtherMode

definition matchByType :: "CharTables \<Rightarrow> jsstring \<Rightarrow> jsstring \<Rightarrow> MatchMode \<Rightarrow> bool" where
  "matchByType T haystack needle type =
     (let h = haystack; n = normalize_str T needle in
      if n = [] then False
      else if type = Contains then sublist n (normalize_str T h)
      else
        let sentences = splitIntoSentences h in
        if type = StartsWith
          then list_ex (\<lambda>s. prefix n (normalize_str T (trimStartPunct T (s_text s)))) sentences
        else if type = EndsWith
          then list_ex (\<lambda>s. suffix n (normalize_str T (trimEndPunct T (s_text s)))) sentences
        else False)"

section \<open>Match locator\<close>

text \<open>
  \<open>computeMatchInfo\<close> returns \<open>null\<close> (here \<open>None\<close>) or a record. The field
  \<open>matchPercent\<close> is a rounded floating-point quotient; it takes no part in what
  follows and is left out of the record.
\<close>

record MatchInfo =
  mi_index :: int
  mi_length :: nat
  mi_snippet :: jsstring
  mi_highlightedSnippet :: jsstring

text \<open>
  The loop over the sentences of \<open>computeMatchInfo\<close>: \<open>idx\<close> starts at \<open>-1\<close> and
  the first sentence that satisfies the anchored test sets it and leaves the loop.
\<close>

fun locate :: "CharTables \<Rightarrow> MatchMode \<Rightarrow> jsstring \<Rightarrow> jsstring \<Rightarrow> SentenceSpan list \<Rightarrow> int" where
  "locate T type q lq [] = - 1"
| "locate T type q lq (s # ss) =
     (if type = StartsWith then
        (let leftTrim = trimStartPunct T (s_text s) in
         if prefix lq (normalize_str T leftTrim)
           then (let removed = int (length (s_text s)) - int (length leftTrim)
                 in int (s_start s) + removed)
         else locate T type q lq ss)
      else if type = EndsWith then
        (let rightTrim = trimEndPunct T (s_text s) in
         if suffix lq (normalize_str T rightTrim)
           then int (s_start s) + int (length rightTrim) - int (length q)
         else locate T type q lq ss)
      else locate T type q lq ss)"

definition computeMatchInfo :: "CharTables \<Rightarrow> jsstring \<Rightarrow> jsstring \<Rightarrow> MatchMode \<Rightarrow> MatchInfo option" where
  "computeMatchInfo T text query type =
     (let hay = text; q = query in
      if hay = [] \<or> q = [] then None
      else
        let lhay = normalize_str T hay;
            lq = normalize_str T q;
            idx = (if type = Contains then indexOf lhay lq
                   else locate T type q lq (splitIntoSentences hay))
        in if idx < 0 then None
           else
             let snippetRadius = 220;
                 start = max 0 (idx - snippetRadius);
                 end' = min (int (length hay)) (idx + int (length q) + snippetRadius);
                 prefix' = js_slice hay start idx;
                 match = js_slice hay idx (idx + int (length q));
                 suffix' = js_slice hay (idx + int (length q)) end';
                 lead = (if start > 0 then ellipsis else []);
                 trail = (if end' < int (length hay) then ellipsis else [])
             in Some \<lparr>mi_index = idx, mi_length = length q,
                       mi_snippet = lead @ prefix' @ match @ suffix' @ trail,
                       mi_highlightedSnippet =
                         lead @ prefix' @ mark_open @ match @ mark_close @ suffix' @ trail\<rparr>)"

section \<open>Highlight renderer\<close>

text \<open>
  \<open>escapeRegExp\<close> escapes every syntax character of the query, so the pattern of
  \<open>highlightAll\<close> is the query taken literally. Under the flags \<open>iu\<close> the pattern
  and the text are read code point by code point, and two code points match when
  their simple case foldings are equal. \<open>replace\<close> with the flag \<open>g\<close> scans from
  the left, wraps a match and continues after it, and copies one code point
  where the pattern does not match. \<open>highlightAll\<close> never builds the pattern of
  an empty query.
\<close>

definition matches_at :: "CharTables \<Rightarrow> jsstring list \<Rightarrow> jsstring list \<Rightarrow> bool" where
  "matches_at T pat cs =
     (length pat \<le> length cs
      \<and> map (\<lambda>ch. caseFold T (cp_of ch)) (take (length pat) cs)
          = map (\<lambda>ch. caseFold T (cp_of ch)) pat)"

definition occurs :: "CharTables \<Rightarrow> jsstring list \<Rightarrow> jsstring list \<Rightarrow> bool" where
  \<comment> \<open>the pattern matches at some code point of the text\<close>
  "occurs T pat cs = (\<exists>n\<le>length cs. matches_at T pat (drop n cs))"

function replace_matches :: "CharTables \<Rightarrow> jsstring list \<Rightarrow> jsstring list \<Rightarrow> jsstring" where
  "replace_matches T pat cs =
     (if cs = [] \<or> pat = [] then concat cs
      else if matches_at T pat cs
        then mark_open @ concat (take (length pat) cs) @ mark_close
             @ replace_matches T pat (drop (length pat) cs)
      else hd cs @ replace_matches T pat (tl cs))"
  by pat_completeness auto
termination
  by (relation "measure (\<lambda>(T, pat, cs). length cs)") (auto simp: neq_Nil_conv)

declare replace_matches.simps [simp del]

definition highlightAll :: "CharTables \<Rightarrow> jsstring \<Rightarrow> jsstring \<Rightarrow> jsstring" where
  "highlightAll T text query =
     (if text = [] \<or> query = [] then text
      else replace_matches T (chunks query) (chunks text))"

record Range =
  r_start :: int
  r_end :: int

fun highlight_loop :: "jsstring \<Rightarrow> Range list \<Rightarrow> jsstring \<Rightarrow> int \<Rightarrow> jsstring" where
  "highlight_loop text [] out last' = out @ js_slice_from text last'"
| "highlight_loop text (r # rs) out last' =
     highlight_loop text rs
       (out @ js_slice text last' (r_start r)
            @ mark_open @ js_slice text (r_start r) (r_end r) @ mark_close)
       (r_end r)"

definition highlightRanges :: "jsstring \<Rightarrow> Range list \<Rightarrow> jsstring" where
  "highlightRanges text ranges =
     (if ranges = [] then text
      else highlight_loop text (sort_key r_start ranges) [] 0)"

text \<open>What one sentence adds to \<open>ranges\<close> in the loop of \<open>highlightByType\<close>.\<close>

definition sentence_ranges :: "CharTables \<Rightarrow> MatchMode \<Rightarrow> jsstring \<Rightarrow> SentenceSpan \<Rightarrow> Range list" where
  "sentence_ranges T type lq s =
     (if type = StartsWith then
        (let leftTrim = trimStartPunct T (s_text s) in
         if prefix lq (normalize_str T leftTrim)
           then (let removed = int (length (s_text s)) - int (length leftTrim);
                     start = int (s_start s) + removed
                 in [\<lparr>r_start = start, r_end = start + int (length lq)\<rparr>])
         else [])
      else if type = EndsWith then
        (let rightTrim = trimEndPunct T (s_text s) in
         if suffix lq (normalize_str T rightTrim)
           then (let start = int (s_start s) + int (length rightTrim) - int (length lq)
                 in [\<lparr>r_start = start, r_end = start + int (length lq)\<rparr>])
         else [])
      else [])"

definition highlightByType :: "CharTables \<Rightarrow> jsstring \<Rightarrow> jsstring \<Rightarrow> MatchMode \<Rightarrow> jsstring" where
  "highlightByType T text query type =
     (if text = [] \<or> query = [] then text
      else if type = Contains then highlightAll T text query
      else
        let lq = normalize_str T query;
            sentences = splitIntoSentences text;
            ranges = concat (map (sentence_ranges T type lq) sentences)
        in highlightRanges text ranges)"

section \<open>Search orchestrator\<close>

text \<open>
  A document of the collection. A field that may be missing is an option; \<open>x || ''\<close>
  reads it.
\<close>

record Document =
  doc_id :: jsstring
  fileName :: "jsstring option"
  author :: "jsstring option"
  title :: "jsstring option"
  textContent :: "jsstring option"
  textContentStoragePath :: "jsstring option"

definition orEmpty :: "jsstring option \<Rightarrow> jsstring" where
  "orEmpty x = (case x of None \<Rightarrow> [] | Some s \<Rightarrow> s)"

datatype SearchField = FieldAll | FieldContent | FieldFileName | FieldAuthor

datatype error = CorpusFetchFailed | BlobFetchFailed

text \<open>
  What the service calls but does not own: the query on the document collection
  (\<open>fetchAllDocuments\<close>, which may fail), the download of a stored text
  (\<open>getDownloadURL\<close>, \<open>fetch\<close> and \<open>res.text()\<close>, any of which may fail), and the
  search of Fuse.js, \<open>new Fuse(candidates, options).search(q).map(r => r.item)\<close>.
\<close>

record Collaborators =
  fetchAllDocuments :: "error + Document list"
  fetchText :: "jsstring \<Rightarrow> error + jsstring"
  fuseSearch :: "Document list \<Rightarrow> jsstring \<Rightarrow> Document list"

definition hydrate :: "Collaborators \<Rightarrow> Document \<Rightarrow> Document" where
  "hydrate env doc =
     (if orEmpty (textContent doc) = [] \<and> orEmpty (textContentStoragePath doc) \<noteq> [] then
        (case fetchText env (orEmpty (textContentStoragePath doc)) of
           Inl e \<Rightarrow> doc
         | Inr fullText \<Rightarrow> doc\<lparr>textContent := Some fullText\<rparr>)
      else doc)"

definition isCandidate :: "CharTables \<Rightarrow> jsstring \<Rightarrow> MatchMode \<Rightarrow> SearchField \<Rightarrow> Document \<Rightarrow> bool" where
  "isCandidate T q searchType searchField doc =
     (let text = orEmpty (textContent doc);
          name = orEmpty (fileName doc);
          author' = orEmpty (author doc);
          title' = orEmpty (title doc)
      in if searchField = FieldFileName then matchByType T name q searchType
         else if searchField = FieldAuthor then matchByType T author' q searchType
         else if searchField = FieldContent then matchByType T text q searchType
         else (matchByType T text q searchType \<or> matchByType T name q searchType
               \<or> matchByType T author' q searchType \<or> matchByType T title' q searchType))"

definition rankCandidates :: "Collaborators \<Rightarrow> Document list \<Rightarrow> jsstring \<Rightarrow> Document list" where
  "rankCandidates env candidates q =
     (let ranked = fuseSearch env candidates q in
      if ranked \<noteq> [] then ranked else candidates)"

text \<open>
  A search result. \<open>matchPercent\<close> and \<open>estimatedPage\<close> are floating-point values
  derived from the match offset and are left out.
\<close>

record SearchResult =
  r_doc :: Document
  highlightedContent :: "jsstring option"
  highlightedFullContent :: "jsstring option"
  highlightedFileName :: jsstring
  highlightedAuthor :: jsstring
  matchIndex :: "int option"

definition enrich :: "CharTables \<Rightarrow> jsstring \<Rightarrow> MatchMode \<Rightarrow> Document \<Rightarrow> SearchResult" where
  "enrich T q searchType doc =
     (case computeMatchInfo T (orEmpty (textContent doc)) q searchType of
        Some info \<Rightarrow>
          \<lparr>r_doc = doc,
           highlightedContent = Some (mi_highlightedSnippet info),
           highlightedFullContent = Some (highlightByType T (orEmpty (textContent doc)) q searchType),
           highlightedFileName = highlightByType T (orEmpty (fileName doc)) q searchType,
           highlightedAuthor = highlightByType T (orEmpty (author doc)) q searchType,
           matchIndex = Some (mi_index info)\<rparr>
      | None \<Rightarrow>
          \<lparr>r_doc = doc,
           highlightedContent = None,
           highlightedFullContent = None,
           highlightedFileName = highlightByType T (orEmpty (fileName doc)) q searchType,
           highlightedAuthor = highlightByType T (orEmpty (author doc)) q searchType,
           matchIndex = None\<rparr>)"

definition hasAlphaNum :: "CharTables \<Rightarrow> jsstring \<Rightarrow> bool" where
  \<comment> \<open>\<open>/[\p{L}\p{N}]/u.test(q)\<close>\<close>
  "hasAlphaNum T q = list_ex (\<lambda>cp. isLetter T cp \<or> isNumber T cp) (code_points q)"

definition searchDocuments ::
  "CharTables \<Rightarrow> Collaborators \<Rightarrow> jsstring \<Rightarrow> MatchMode \<Rightarrow> SearchField \<Rightarrow> error + SearchResult list" where
  "searchDocuments T env searchQuery searchType searchField =
     (let q = trim searchQuery in
      if q = [] then Inr []
      else if \<not> hasAlphaNum T q then Inr []
      else
        case fetchAllDocuments env of
          Inl e \<Rightarrow> Inl e
        | Inr fetched \<Rightarrow>
            (let docs = map (hydrate env) fetched;
                 candidates = filter (isCandidate T q searchType searchField) docs;
                 ordered = rankCandidates env candidates q;
                 enriched = map (enrich T q searchType) ordered
             in Inr (take 100 enriched)))"

section \<open>Reading a highlighted field back\<close>

text \<open>
  Deleting the two markers from a rendered field, scanning from the left: this is
  how the claim about \<open>highlightByType\<close> reads its output.
\<close>

lemma mark_lengths: "length mark_open = 31" "length mark_close = 7"
  by (simp_all add: mark_open_def mark_close_def str_def)

function remove_markers :: "jsstring \<Rightarrow> jsstring" where
  "remove_markers s =
     (if s = [] then []
      else if prefix mark_open s then remove_markers (drop (length mark_open) s)
      else if prefix mark_close s then remove_markers (drop (length mark_close) s)
      else hd s # remove_markers (tl s))"
  by pat_completeness auto
termination
  by (relation "measure length") (auto simp: mark_lengths neq_Nil_conv)

declare remove_markers.simps [simp del]

section \<open>Sample inputs\<close>

definition sample_doc :: "jsstring \<Rightarrow> jsstring option \<Rightarrow> jsstring option \<Rightarrow> Document" where
  "sample_doc name content path =
     \<lparr>doc_id = name, fileName = Some name, author = None, title = None,
      textContent = content, textContentStoragePath = path\<rparr>"

definition invoice_doc :: Document where
  "invoice_doc =
     sample_doc (str ''invoice_2023.pdf'')
       (Some (str ''Payment due. Thank you for your business.'')) None"

definition pending_doc :: Document where
  \<comment> \<open>no inline text, and a stored text that cannot be fetched\<close>
  "pending_doc = sample_doc (str ''payment_scan.pdf'') None (Some (str ''texts/scan.txt''))"

definition offline_store :: Collaborators where
  \<comment> \<open>the collection cannot be read\<close>
  "offline_store =
     \<lparr>fetchAllDocuments = Inl CorpusFetchFailed,
      fetchText = (\<lambda>path. Inl BlobFetchFailed),
      fuseSearch = (\<lambda>candidates q. [])\<rparr>"

definition sample_store :: Collaborators where
  \<comment> \<open>two documents, no stored text reachable, an engine with no hits\<close>
  "sample_store =
     \<lparr>fetchAllDocuments = Inr [invoice_doc, pending_doc],
      fetchText = (\<lambda>path. Inl BlobFetchFailed),
      fuseSearch = (\<lambda>candidates q. [])\<rparr>"




section \<open>Facts about code points\<close>

lemma concat_chunks: "concat (chunks s) = s"
  by (induction s rule: chunks.induct) auto

lemma chunks_Nil_iff: "chunks s = [] \<longleftrightarrow> s = []"
  by (cases s rule: chunks.cases) auto

lemma chunk_shape:
  "c \<in> set (chunks s) \<Longrightarrow> (\<exists>u. c = [u]) \<or> (\<exists>h l. c = [h, l] \<and> is_high h \<and> is_low l)"
  by (induction s rule: chunks.induct) (auto split: if_splits)

lemma space_not_surrogate: "is_space c \<Longrightarrow> \<not> is_high c \<and> \<not> is_low c"
  by (auto simp: is_space_def is_high_def is_low_def)

lemma chunks_append:
  "a = [] \<or> \<not> is_high (last a) \<or> b = [] \<or> \<not> is_low (hd b)
     \<Longrightarrow> chunks (a @ b) = chunks a @ chunks b"
proof (induction a rule: chunks.induct)
  case (1 h l rest)
  then show ?case by (cases rest) (auto split: if_splits)
next
  case (2 h)
  then show ?case by (cases b) auto
next
  case 3
  then show ?case by simp
qed

lemma chunks_dropWhile_space: "set (chunks (dropWhile is_space s)) \<subseteq> set (chunks s)"
proof -
  let ?ws = "takeWhile is_space s"
  have "?ws = [] \<or> \<not> is_high (last ?ws)"
  proof (cases "?ws = []")
    case False
    then have "last ?ws \<in> set ?ws" by simp
    then have "is_space (last ?ws)" by (meson set_takeWhileD)
    then show ?thesis using space_not_surrogate by blast
  qed simp
  then have "chunks (?ws @ dropWhile is_space s) = chunks ?ws @ chunks (dropWhile is_space s)"
    by (intro chunks_append) blast
  then show ?thesis by simp
qed

lemma chunks_trim: "set (chunks (trim s)) \<subseteq> set (chunks s)"
proof -
  let ?a = "dropWhile is_space s"
  let ?ws = "rev (takeWhile is_space (rev ?a))"
  have split: "?a = trim s @ ?ws"
  proof -
    have "rev (takeWhile is_space (rev ?a) @ dropWhile is_space (rev ?a)) = rev (rev ?a)"
      by (simp only: takeWhile_dropWhile_id)
    then have "rev (dropWhile is_space (rev ?a)) @ rev (takeWhile is_space (rev ?a)) = ?a"
      by (simp only: rev_append rev_rev_ident)
    then show ?thesis by (simp only: trim_def)
  qed
  have "?ws = [] \<or> \<not> is_low (hd ?ws)"
  proof (cases "?ws = []")
    case False
    then have "hd ?ws \<in> set (takeWhile is_space (rev ?a))"
      by (metis hd_in_set set_rev)
    then have "is_space (hd ?ws)" by (meson set_takeWhileD)
    then show ?thesis using space_not_surrogate by blast
  qed simp
  then have "chunks (trim s @ ?ws) = chunks (trim s) @ chunks ?ws"
    by (intro chunks_append) blast
  with split have "set (chunks (trim s)) \<subseteq> set (chunks ?a)" by (metis Un_iff set_append subsetI)
  with chunks_dropWhile_space [of s] show ?thesis by blast
qed

lemma hasAlphaNum_trim: "hasAlphaNum T (trim s) \<Longrightarrow> hasAlphaNum T s"
  using chunks_trim [of s] by (auto simp: hasAlphaNum_def code_points_def list_ex_iff)

section \<open>Rejected queries\<close>

text \<open>
  Claim C3. For all tables of the language, every store (also one whose
  collection cannot be read), every mode and every field scope, \<open>searchDocuments\<close>
  returns the empty list, and no error, when the query is empty after trimming
  or holds no code point that is a letter or a digit.
\<close>

theorem search_rejects_blank_and_symbol_queries:
  assumes "trim searchQuery = []
           \<or> \<not> (\<exists>cp \<in> set (code_points searchQuery). isLetter T cp \<or> isNumber T cp)"
  shows "searchDocuments T env searchQuery searchType searchField = Inr []"
proof (cases "trim searchQuery = []")
  case True
  then show ?thesis by (simp add: searchDocuments_def)
next
  case False
  with assms have "\<not> hasAlphaNum T searchQuery" by (simp add: hasAlphaNum_def list_ex_iff)
  then have "\<not> hasAlphaNum T (trim searchQuery)" using hasAlphaNum_trim by blast
  then show ?thesis by (simp add: searchDocuments_def Let_def)
qed

theorem search_rejects_blank_and_symbol_queries_witness:
  "searchDocuments latin_tables offline_store (str ''   '') Contains FieldAll = Inr []
   \<and> searchDocuments latin_tables sample_store (str '' . '') Contains FieldAll = Inr []
   \<and> isCandidate latin_tables (str ''.'') Contains FieldAll invoice_doc"
proof -
  have h1: "trim (str ''   '') = []
            \<or> \<not> (\<exists>cp \<in> set (code_points (str ''   '')).
                    isLetter latin_tables cp \<or> isNumber latin_tables cp)"
    by code_simp
  have h2: "trim (str '' . '') = []
            \<or> \<not> (\<exists>cp \<in> set (code_points (str '' . '')).
                    isLetter latin_tables cp \<or> isNumber latin_tables cp)"
    by code_simp
  have h3: "isCandidate latin_tables (str ''.'') Contains FieldAll invoice_doc"
    by code_simp
  from search_rejects_blank_and_symbol_queries [OF h1]
       search_rejects_blank_and_symbol_queries [OF h2] h3
  show ?thesis by simp
qed

section \<open>The ranking step\<close>




text \<open>
  Claim C2. When the fuzzy engine returns no hit, the ranking step yields the
  filtered candidates in their original order, so it is not empty when the
  filtered list is not.
\<close>

theorem rank_fallback_original_order:
  assumes "fuseSearch env candidates q = []"
  shows "rankCandidates env candidates q = candidates
         \<and> (candidates \<noteq> [] \<longrightarrow> rankCandidates env candidates q \<noteq> [])"
  using assms by (simp add: rankCandidates_def)

theorem rank_fallback_original_order_witness:
  "fuseSearch sample_store [invoice_doc, pending_doc] (str ''payment'') = []
   \<and> rankCandidates sample_store [invoice_doc, pending_doc] (str ''payment'')
       = [invoice_doc, pending_doc]"
proof -
  have h: "fuseSearch sample_store [invoice_doc, pending_doc] (str ''payment'') = []"
    by (simp add: sample_store_def)
  from rank_fallback_original_order [OF h] h show ?thesis by simp
qed

section \<open>The orchestrator\<close>

lemma hydrate_failed:
  assumes "fetchText env (orEmpty (textContentStoragePath d)) = Inl e"
  shows "hydrate env d = d"
  using assms by (simp add: hydrate_def)

lemma searchDocuments_accepted:
  assumes "fetchAllDocuments env = Inr fetched" "trim searchQuery \<noteq> []"
    "hasAlphaNum T (trim searchQuery)"
  shows "searchDocuments T env searchQuery searchType searchField =
     Inr (take 100 (map (enrich T (trim searchQuery) searchType)
       (rankCandidates env
          (filter (isCandidate T (trim searchQuery) searchType searchField)
             (map (hydrate env) fetched))
          (trim searchQuery))))"
  using assms by (simp add: searchDocuments_def Let_def)

lemma searchDocuments_completes:
  assumes "fetchAllDocuments env = Inr fetched"
  shows "\<exists>results. searchDocuments T env searchQuery searchType searchField = Inr results"
  using assms by (simp add: searchDocuments_def Let_def)

lemma r_doc_enrich: "r_doc (enrich T q searchType doc) = doc"
  by (simp add: enrich_def split: option.splits)

lemma enrich_in_set: "enrich T q searchType d \<in> set (map (enrich T q searchType) ds) \<longleftrightarrow> d \<in> set ds"
proof
  assume "enrich T q searchType d \<in> set (map (enrich T q searchType) ds)"
  then obtain d' where "d' \<in> set ds" "enrich T q searchType d = enrich T q searchType d'" by auto
  then show "d \<in> set ds" using r_doc_enrich by metis
qed auto

lemma enrich_without_text:
  "orEmpty (textContent d) = []
     \<Longrightarrow> highlightedContent (enrich T q searchType d) = None
         \<and> highlightedFullContent (enrich T q searchType d) = None
         \<and> matchIndex (enrich T q searchType d) = None"
  by (simp add: enrich_def computeMatchInfo_def)

text \<open>
  Claim C7. Let the collection be read, and let the download of the stored text
  of one of its documents fail (the document has no inline text and has a
  storage path, so the download is attempted). Then, for all tables, queries,
  modes and scopes, the search returns a result list and no error, and the
  document is left as it was, with no content highlight. For a query that is
  searched, the result is the first 100 enriched records of the ranked
  candidates; the document is a candidate exactly when its own fields match the
  query; it is in the result exactly when it is among the first 100 of the
  ranked order; and when the engine has no hit and there are at most 100
  candidates, it is in the result exactly when its own fields match.
\<close>

theorem hydration_failure_degrades_record:
  assumes corpus: "fetchAllDocuments env = Inr fetched"
    and member: "d \<in> set fetched"
    and inline: "orEmpty (textContent d) = []"
    and stored: "orEmpty (textContentStoragePath d) \<noteq> []"
    and failure: "fetchText env (orEmpty (textContentStoragePath d)) = Inl e"
  shows "(\<exists>results. searchDocuments T env searchQuery searchType searchField = Inr results)
    \<and> hydrate env d = d
    \<and> highlightedContent (enrich T (trim searchQuery) searchType d) = None
    \<and> (trim searchQuery \<noteq> [] \<and> hasAlphaNum T (trim searchQuery) \<longrightarrow>
         (\<exists>results candidates.
            candidates = filter (isCandidate T (trim searchQuery) searchType searchField)
                           (map (hydrate env) fetched)
            \<and> searchDocuments T env searchQuery searchType searchField = Inr results
            \<and> results = take 100 (map (enrich T (trim searchQuery) searchType)
                                  (rankCandidates env candidates (trim searchQuery)))
            \<and> (d \<in> set candidates
                 \<longleftrightarrow> isCandidate T (trim searchQuery) searchType searchField d)
            \<and> (enrich T (trim searchQuery) searchType d \<in> set results
                 \<longleftrightarrow> d \<in> set (take 100 (rankCandidates env candidates (trim searchQuery))))
            \<and> (fuseSearch env candidates (trim searchQuery) = [] \<and> length candidates \<le> 100
                 \<longrightarrow> (enrich T (trim searchQuery) searchType d \<in> set results
                       \<longleftrightarrow> isCandidate T (trim searchQuery) searchType searchField d))))"
proof -
  let ?q = "trim searchQuery"
  let ?cands = "filter (isCandidate T ?q searchType searchField) (map (hydrate env) fetched)"
  let ?results = "take 100 (map (enrich T ?q searchType) (rankCandidates env ?cands ?q))"
  have same: "hydrate env d = d" by (rule hydrate_failed [OF failure])
  with member have kept: "d \<in> set (map (hydrate env) fetched)" by force
  then have cand: "d \<in> set ?cands \<longleftrightarrow> isCandidate T ?q searchType searchField d" by simp
  have inres: "enrich T ?q searchType d \<in> set ?results
                 \<longleftrightarrow> d \<in> set (take 100 (rankCandidates env ?cands ?q))"
    by (simp only: take_map enrich_in_set)
  have fallback: "enrich T ?q searchType d \<in> set ?results
                    \<longleftrightarrow> isCandidate T ?q searchType searchField d"
    if "fuseSearch env ?cands ?q = []" "length ?cands \<le> 100"
  proof -
    from that have "take 100 (rankCandidates env ?cands ?q) = ?cands"
      by (simp add: rankCandidates_def)
    with inres cand show ?thesis by simp
  qed
  have accepted: "searchDocuments T env searchQuery searchType searchField = Inr ?results"
    if "?q \<noteq> []" "hasAlphaNum T ?q"
    using searchDocuments_accepted [OF corpus that] .
  from enrich_without_text [OF inline] have none: "highlightedContent (enrich T ?q searchType d) = None"
    by blast
  show ?thesis
  proof (intro conjI impI)
    show "\<exists>results. searchDocuments T env searchQuery searchType searchField = Inr results"
      by (rule searchDocuments_completes [OF corpus])
    show "hydrate env d = d" by (rule same)
    show "highlightedContent (enrich T ?q searchType d) = None" by (rule none)
  next
    assume a: "?q \<noteq> [] \<and> hasAlphaNum T ?q"
    show "\<exists>results candidates.
            candidates = ?cands
            \<and> searchDocuments T env searchQuery searchType searchField = Inr results
            \<and> results = take 100 (map (enrich T ?q searchType) (rankCandidates env candidates ?q))
            \<and> (d \<in> set candidates \<longleftrightarrow> isCandidate T ?q searchType searchField d)
            \<and> (enrich T ?q searchType d \<in> set results
                 \<longleftrightarrow> d \<in> set (take 100 (rankCandidates env candidates ?q)))
            \<and> (fuseSearch env candidates ?q = [] \<and> length candidates \<le> 100
                 \<longrightarrow> (enrich T ?q searchType d \<in> set results
                       \<longleftrightarrow> isCandidate T ?q searchType searchField d))"
      using accepted a cand inres fallback by (intro exI [of _ ?results] exI [of _ ?cands]) blast
  qed
qed

theorem hydration_failure_degrades_record_witness:
  "searchDocuments latin_tables sample_store (str '' payment '') Contains FieldAll
     = Inr [enrich latin_tables (str ''payment'') Contains invoice_doc,
            enrich latin_tables (str ''payment'') Contains pending_doc]
   \<and> hydrate sample_store pending_doc = pending_doc
   \<and> highlightedContent (enrich latin_tables (str ''payment'') Contains pending_doc) = None
   \<and> highlightedFileName (enrich latin_tables (str ''payment'') Contains pending_doc)
       = mark_open @ str ''payment'' @ mark_close @ str ''_scan.pdf''"
proof -
  have corpus: "fetchAllDocuments sample_store = Inr [invoice_doc, pending_doc]"
    by (simp add: sample_store_def)
  have member: "pending_doc \<in> set [invoice_doc, pending_doc]" by simp
  have inline: "orEmpty (textContent pending_doc) = []"
    by (simp add: pending_doc_def sample_doc_def orEmpty_def)
  have stored: "orEmpty (textContentStoragePath pending_doc) \<noteq> []"
    by (simp add: pending_doc_def sample_doc_def orEmpty_def str_def)
  have failure: "fetchText sample_store (orEmpty (textContentStoragePath pending_doc))
                   = Inl BlobFetchFailed"
    by (simp add: sample_store_def)
  have q: "trim (str '' payment '') = str ''payment''" by code_simp
  have acc: "trim (str '' payment '') \<noteq> [] \<and> hasAlphaNum latin_tables (trim (str '' payment ''))"
    by code_simp
  have c1: "isCandidate latin_tables (str ''payment'') Contains FieldAll invoice_doc" by code_simp
  have c2: "isCandidate latin_tables (str ''payment'') Contains FieldAll pending_doc" by code_simp
  have h1: "hydrate sample_store invoice_doc = invoice_doc"
    by (simp add: hydrate_def invoice_doc_def sample_doc_def orEmpty_def)
  have nohit: "fuseSearch sample_store cs (str ''payment'') = []" for cs
    by (simp add: sample_store_def)
  have name: "highlightedFileName (enrich latin_tables (str ''payment'') Contains pending_doc)
       = mark_open @ str ''payment'' @ mark_close @ str ''_scan.pdf''"
    by code_simp
  from hydration_failure_degrades_record [OF corpus member inline stored failure,
         of latin_tables "str '' payment ''" Contains FieldAll]
  have same: "hydrate sample_store pending_doc = pending_doc"
    and none: "highlightedContent (enrich latin_tables (trim (str '' payment '')) Contains pending_doc) = None"
    and res: "\<exists>results candidates.
            candidates = filter (isCandidate latin_tables (trim (str '' payment '')) Contains FieldAll)
                           (map (hydrate sample_store) [invoice_doc, pending_doc])
            \<and> searchDocuments latin_tables sample_store (str '' payment '') Contains FieldAll = Inr results
            \<and> results = take 100 (map (enrich latin_tables (trim (str '' payment '')) Contains)
                                  (rankCandidates sample_store candidates (trim (str '' payment ''))))"
    using acc by blast+
  from res q c1 c2 h1 same
  have "searchDocuments latin_tables sample_store (str '' payment '') Contains FieldAll
     = Inr [enrich latin_tables (str ''payment'') Contains invoice_doc,
            enrich latin_tables (str ''payment'') Contains pending_doc]"
    by (auto simp: rankCandidates_def nohit)
  with same none name q show ?thesis by simp
qed




section \<open>Facts about the tables\<close>

lemma latin_lower_unit_not_Nil: "latin_lower_unit c \<noteq> []"
  by (simp add: latin_lower_unit_def)

lemma latin_lower_hd: "is_space (hd (latin_lower_unit c)) \<longleftrightarrow> is_space c"
  by (auto simp: latin_lower_unit_def has_upper_def is_space_def)

lemma latin_lower_last: "is_space (last (latin_lower_unit c)) \<longleftrightarrow> is_space c"
  by (auto simp: latin_lower_unit_def has_upper_def is_space_def)

lemma latin_keeps_empty: "lower_keeps_empty latin_tables"
proof -
  have "concat (map latin_lower_unit s) = [] \<longleftrightarrow> s = []" for s
    by (cases s) (simp_all add: latin_lower_unit_not_Nil)
  then show ?thesis by (simp add: lower_keeps_empty_def latin_tables_def)
qed

lemma latin_keeps_space: "lower_keeps_space latin_tables"
proof -
  have hd: "is_space (hd (concat (map latin_lower_unit s))) \<longleftrightarrow> is_space (hd s)"
    if "s \<noteq> []" for s
    using that by (cases s) (simp_all add: latin_lower_unit_not_Nil latin_lower_hd)
  have last: "is_space (last (concat (map latin_lower_unit s))) \<longleftrightarrow> is_space (last s)"
    if "s \<noteq> []" for s
    using that
  proof (induction s rule: rev_induct)
    case (snoc c s)
    then show ?case by (simp add: latin_lower_unit_not_Nil latin_lower_last)
  qed simp
  from hd last show ?thesis by (simp add: lower_keeps_space_def latin_tables_def)
qed


lemma trim_Nil_spaces:
  assumes "trim q = []"
  shows "\<forall>c \<in> set q. is_space c"
proof -
  let ?a = "dropWhile is_space q"
  from assms have "dropWhile is_space (rev ?a) = []" by (simp add: trim_def)
  then have all: "\<forall>x \<in> set ?a. is_space x" by (simp add: dropWhile_eq_Nil_conv)
  have "?a = []"
  proof (rule ccontr)
    assume ne: "?a \<noteq> []"
    then have "\<not> is_space (hd ?a)" by (rule hd_dropWhile)
    moreover from ne have "hd ?a \<in> set ?a" by simp
    ultimately show False using all by blast
  qed
  then show ?thesis by (simp add: dropWhile_eq_Nil_conv)
qed

lemma chunk_hd_not_space:
  assumes "c \<in> set (chunks s)" "\<not> punct_or_space T c"
  shows "c \<noteq> [] \<and> \<not> is_space (hd c) \<and> \<not> is_space (last c)"
proof -
  from chunk_shape [OF assms(1)] consider u where "c = [u]"
    | h l where "c = [h, l]" "is_high h" "is_low l" by blast
  then show ?thesis
  proof cases
    case 1
    with assms(2) show ?thesis by (simp add: punct_or_space_def cp_of_def)
  next
    case 2
    then show ?thesis using space_not_surrogate by auto
  qed
qed

lemma trimStartPunct_hd:
  assumes "trimStartPunct T s \<noteq> []"
  shows "\<not> is_space (hd (trimStartPunct T s))"
proof -
  let ?cs = "dropWhile (punct_or_space T) (chunks s)"
  have "?cs = [] \<Longrightarrow> trimStartPunct T s = []"
    unfolding trimStartPunct_def by (simp only: concat.simps)
  with assms have ne: "?cs \<noteq> []" by blast
  then have n: "\<not> punct_or_space T (hd ?cs)" by (rule hd_dropWhile)
  from ne have "hd ?cs \<in> set ?cs" by simp
  then have "hd ?cs \<in> set (chunks s)" by (meson set_dropWhileD)
  from chunk_hd_not_space [OF this n] have c: "hd ?cs \<noteq> []" "\<not> is_space (hd (hd ?cs))" by auto
  from ne c(1) have "hd (concat ?cs) = hd (hd ?cs)" by (cases ?cs) auto
  with c(2) show ?thesis by (simp add: trimStartPunct_def)
qed

lemma trimEndPunct_last:
  assumes "trimEndPunct T s \<noteq> []"
  shows "\<not> is_space (last (trimEndPunct T s))"
proof -
  let ?cs = "dropWhile (punct_or_space T) (rev (chunks s))"
  have "?cs = [] \<Longrightarrow> trimEndPunct T s = []"
    unfolding trimEndPunct_def by (simp only: concat.simps rev.simps)
  with assms have ne: "?cs \<noteq> []" by blast
  then have n: "\<not> punct_or_space T (hd ?cs)" by (rule hd_dropWhile)
  from ne have "hd ?cs \<in> set ?cs" by simp
  then have "hd ?cs \<in> set (chunks s)" by (metis set_dropWhileD set_rev)
  from chunk_hd_not_space [OF this n] have c: "hd ?cs \<noteq> []" "\<not> is_space (last (hd ?cs))" by auto
  from ne obtain x xs where x: "?cs = x # xs" by (cases ?cs) auto
  with c have "last (concat (rev ?cs)) = last (hd ?cs)" by simp
  with c(2) show ?thesis by (simp add: trimEndPunct_def)
qed

lemma blank_never_anchored:
  assumes empty: "lower_keeps_empty T" and space: "lower_keeps_space T"
    and blank: "trim q = []"
  shows "\<not> matchByType T text q StartsWith \<and> \<not> matchByType T text q EndsWith
         \<and> \<not> matchByType T text q OtherMode"
proof (cases "q = []")
  case True
  with empty show ?thesis by (simp add: matchByType_def normalize_str_def lower_keeps_empty_def)
next
  case False
  let ?n = "normalize_str T q"
  from False empty have n: "?n \<noteq> []" by (simp add: normalize_str_def lower_keeps_empty_def)
  from trim_Nil_spaces [OF blank] False have "is_space (hd q)" "is_space (last q)" by simp_all
  with space False have sp: "is_space (hd ?n)" "is_space (last ?n)"
    by (simp_all add: normalize_str_def lower_keeps_space_def)
  have starts: "\<not> prefix ?n (normalize_str T (trimStartPunct T x))" for x
  proof
    let ?lt = "trimStartPunct T x"
    assume p: "prefix ?n (normalize_str T ?lt)"
    with n have ne: "normalize_str T ?lt \<noteq> []" by auto
    with empty have lt: "?lt \<noteq> []" by (auto simp: normalize_str_def lower_keeps_empty_def)
    from p n have "hd (normalize_str T ?lt) = hd ?n" by (auto simp: prefix_def)
    with sp(1) have "is_space (hd (normalize_str T ?lt))" by simp
    with space lt have "is_space (hd ?lt)" by (simp add: normalize_str_def lower_keeps_space_def)
    with trimStartPunct_hd [OF lt] show False by simp
  qed
  have ends: "\<not> suffix ?n (normalize_str T (trimEndPunct T x))" for x
  proof
    let ?rt = "trimEndPunct T x"
    assume p: "suffix ?n (normalize_str T ?rt)"
    with n have ne: "normalize_str T ?rt \<noteq> []" by auto
    with empty have rt: "?rt \<noteq> []" by (auto simp: normalize_str_def lower_keeps_empty_def)
    from p n have "last (normalize_str T ?rt) = last ?n" by (auto simp: suffix_def)
    with sp(2) have "is_space (last (normalize_str T ?rt))" by simp
    with space rt have "is_space (last ?rt)" by (simp add: normalize_str_def lower_keeps_space_def)
    with trimEndPunct_last [OF rt] show False by simp
  qed
  from starts ends show ?thesis by (simp add: matchByType_def Let_def list_ex_iff)
qed

section \<open>The match predicate\<close>

text \<open>
  Claim C4, as stated, fails in mode \<open>contains\<close>: \<open>matchByType\<close> rejects the empty
  query only. A query of three spaces is blank, and it matches a text that holds
  three spaces in a row.
\<close>

theorem blank_query_matches_counterexample:
  "trim (str ''   '') = [] \<and> matchByType latin_tables (str ''a   b'') (str ''   '') Contains"
  by code_simp

text \<open>
  Claim C4, amended. In mode \<open>contains\<close> the predicate is true if and only if the
  query is not empty and the lower-cased text contains the lower-cased query.
  The empty query matches in no mode. A blank query matches in no mode but
  \<open>contains\<close>: the anchored modes compare it with a sentence whose punctuation
  and white space are trimmed away at that end.
\<close>

theorem contains_is_lowercase_substring:
  assumes "lower_keeps_empty T" and "lower_keeps_space T"
  shows "(matchByType T text q Contains
            \<longleftrightarrow> q \<noteq> [] \<and> (\<exists>before after.
                  normalize_str T text = before @ normalize_str T q @ after))
    \<and> \<not> matchByType T text [] mode
    \<and> (trim q = [] \<longrightarrow> \<not> matchByType T text q StartsWith \<and> \<not> matchByType T text q EndsWith
                         \<and> \<not> matchByType T text q OtherMode)"
proof (intro conjI impI)
  from assms(1) have n: "normalize_str T q = [] \<longleftrightarrow> q = []" for q
    by (simp add: normalize_str_def lower_keeps_empty_def)
  show "matchByType T text q Contains
          \<longleftrightarrow> q \<noteq> [] \<and> (\<exists>before after. normalize_str T text = before @ normalize_str T q @ after)"
    by (auto simp: matchByType_def Let_def n sublist_def)
  show "\<not> matchByType T text [] mode" by (simp add: matchByType_def n)
next
  assume "trim q = []"
  from blank_never_anchored [OF assms this]
  show "\<not> matchByType T text q StartsWith" "\<not> matchByType T text q EndsWith"
    "\<not> matchByType T text q OtherMode" by blast+
qed

theorem contains_is_lowercase_substring_witness:
  "matchByType latin_tables (str ''Payment DUE'') (str ''ent d'') Contains
   \<and> \<not> matchByType latin_tables (str ''Payment DUE'') (str ''dues'') Contains
   \<and> \<not> matchByType latin_tables (str ''Payment DUE'') [] StartsWith
   \<and> trim (str ''   '') = []
   \<and> \<not> matchByType latin_tables (str ''a   b'') (str ''   '') StartsWith
   \<and> \<not> matchByType latin_tables (str ''a   b'') (str ''   '') EndsWith"
proof -
  have "normalize_str latin_tables (str ''Payment DUE'')
          = str ''paym'' @ normalize_str latin_tables (str ''ent d'') @ str ''ue''"
    by code_simp
  moreover have "str ''ent d'' \<noteq> []" by code_simp
  moreover have "\<not> sublist (normalize_str latin_tables (str ''dues''))
                     (normalize_str latin_tables (str ''Payment DUE''))"
    by code_simp
  moreover have "trim (str ''   '') = []" by code_simp
  ultimately show ?thesis
    using contains_is_lowercase_substring [OF latin_keeps_empty latin_keeps_space,
             of "str ''Payment DUE''" "str ''ent d''" StartsWith]
      contains_is_lowercase_substring [OF latin_keeps_empty latin_keeps_space,
             of "str ''Payment DUE''" "str ''dues''" StartsWith]
      contains_is_lowercase_substring [OF latin_keeps_empty latin_keeps_space,
             of "str ''a   b''" "str ''   ''" StartsWith]
    by (auto simp: sublist_def)
qed







section \<open>The match locator\<close>

text \<open>
  Claim C6 fails on the code. The text is \<open>Istanbul\<close> written with U+0130, the
  query the same word in lower case (\<open>i\<close>, U+0307, \<open>stanbul\<close>). The lower-cased
  sentence ends with the lower-cased query, so the predicate is true; the locator
  subtracts the length of the raw query (9) from the length of the raw sentence
  (8), gets \<open>-1\<close> and returns nothing. In mode \<open>contains\<close> the offset is found in
  the lower-cased text and can lie beyond the end of the text itself.
\<close>

theorem locator_misses_dotted_capital_I:
  "matchByType latin_tables (304 # str ''stanbul'') ([105, 775] @ str ''stanbul'') EndsWith
   \<and> computeMatchInfo latin_tables (304 # str ''stanbul'') ([105, 775] @ str ''stanbul'') EndsWith
       = None
   \<and> map_option mi_index (computeMatchInfo latin_tables [304, 304, 304, 97] (str ''a'') Contains)
       = Some 6"
  by code_simp

section \<open>Occurrences of the query\<close>

lemma chunks_hd_hd: "hd (hd (chunks (c # s))) = c"
  by (cases s) auto

lemma wf_chunks_chunks: "wf_chunks (chunks s)"
proof (induction s rule: chunks.induct)
  case (1 h l rest)
  show ?case
  proof (cases "is_high h \<and> is_low l")
    case True
    with 1 show ?thesis by simp
  next
    case False
    with 1 have "wf_chunks (chunks (l # rest))" by blast
    moreover have "hd (hd (chunks (l # rest))) = l" by (rule chunks_hd_hd)
    ultimately show ?thesis using False by auto
  qed
qed simp_all

lemma wf_chunks_hd:
  "wf_chunks cs \<Longrightarrow> cs \<noteq> [] \<Longrightarrow> concat cs \<noteq> [] \<and> hd (concat cs) = hd (hd cs)"
  by (cases cs) auto

lemma chunks_concat: "wf_chunks cs \<Longrightarrow> chunks (concat cs) = cs"
proof (induction cs)
  case Nil
  then show ?case by simp
next
  case (Cons c cs)
  then have ih: "chunks (concat cs) = cs" by simp
  from Cons.prems consider u where "c = [u]" "\<not> (is_high u \<and> cs \<noteq> [] \<and> is_low (hd (hd cs)))"
    | h l where "c = [h, l]" "is_high h" "is_low l" by auto
  then show ?case
  proof cases
    case 1
    show ?thesis
    proof (cases "cs = []")
      case True
      with 1 show ?thesis by simp
    next
      case False
      with Cons.prems wf_chunks_hd [of cs]
      obtain l rest where lr: "concat cs = l # rest" "l = hd (hd cs)"
        by (cases "concat cs") auto
      with 1 False ih show ?thesis by auto
    qed
  next
    case 2
    with ih show ?thesis by simp
  qed
qed

lemma wf_chunks_take: "wf_chunks cs \<Longrightarrow> wf_chunks (take n cs)"
proof (induction cs arbitrary: n)
  case Nil
  then show ?case by simp
next
  case (Cons c cs)
  show ?case
  proof (cases n)
    case 0
    then show ?thesis by simp
  next
    case (Suc m)
    have "take m cs \<noteq> [] \<Longrightarrow> hd (take m cs) = hd cs" by (cases cs; cases m) auto
    with Cons Suc show ?thesis by auto
  qed
qed

lemma wf_chunks_drop: "wf_chunks cs \<Longrightarrow> wf_chunks (drop n cs)"
  by (induction cs arbitrary: n) (auto simp: drop_Cons split: nat.splits)

lemma wf_chunks_tl: "wf_chunks cs \<Longrightarrow> wf_chunks (tl cs)"
  by (cases cs) auto

lemma mark_ends:
  "hd mark_open = 60" "last mark_open = 62" "hd mark_close = 60" "last mark_close = 62"
  "mark_open \<noteq> []" "mark_close \<noteq> []"
  by (simp_all add: mark_open_def mark_close_def str_def)

lemma not_surrogate_60_62: "\<not> is_low 60" "\<not> is_high 62"
  by (simp_all add: is_low_def is_high_def)

lemma matches_at_Nil: "pat \<noteq> [] \<Longrightarrow> \<not> matches_at T pat []"
  by (simp add: matches_at_def)

lemma occurs_tl:
  assumes "occurs T pat cs" "\<not> matches_at T pat cs" "cs \<noteq> []"
  shows "occurs T pat (tl cs)"
proof -
  from assms(1) obtain n where n: "n \<le> length cs" "matches_at T pat (drop n cs)"
    by (auto simp: occurs_def)
  with assms(2) have "n \<noteq> 0" by (cases n) auto
  then obtain m where m: "n = Suc m" by (cases n) auto
  with n assms(3) have "m \<le> length (tl cs)" "matches_at T pat (drop m (tl cs))"
    by (cases cs; simp)+
  then show ?thesis by (auto simp: occurs_def)
qed

lemma occurs_Cons: "occurs T pat cs \<Longrightarrow> occurs T pat (c # cs)"
  unfolding occurs_def
proof (elim exE conjE)
  fix n assume "n \<le> length cs" "matches_at T pat (drop n cs)"
  then have "Suc n \<le> length (c # cs) \<and> matches_at T pat (drop (Suc n) (c # cs))" by simp
  then show "\<exists>n\<le>length (c # cs). matches_at T pat (drop n (c # cs))" by blast
qed

lemma occurs_append: "occurs T pat cs \<Longrightarrow> occurs T pat (p @ cs)"
  by (induction p) (simp_all add: occurs_Cons)

lemma occurs_not_Nil: "occurs T pat cs \<Longrightarrow> pat \<noteq> [] \<Longrightarrow> cs \<noteq> []"
  by (auto simp: occurs_def matches_at_def)

lemma replace_matches_absent:
  "\<not> occurs T pat cs \<Longrightarrow> replace_matches T pat cs = concat cs"
proof (induction T pat cs rule: replace_matches.induct)
  case (1 T pat cs)
  show ?case
  proof (cases "cs = [] \<or> pat = []")
    case True
    then show ?thesis by (subst replace_matches.simps) simp
  next
    case False
    from "1.prems" have nm: "\<not> matches_at T pat cs"
      by (auto simp: occurs_def dest: spec [of _ 0])
    from "1.prems" have "\<not> occurs T pat (tl cs)"
      using False occurs_Cons [of T pat "tl cs" "hd cs"] by auto
    with "1.IH"(2) False nm have "replace_matches T pat (tl cs) = concat (tl cs)" by simp
    with False nm show ?thesis by (subst replace_matches.simps) (cases cs; simp)
  qed
qed

lemma concat_take_drop: "concat (take n cs) @ concat (drop n cs) = concat cs"
  by (metis append_take_drop_id concat_append)

lemma replace_matches_length: "length (concat cs) \<le> length (replace_matches T pat cs)"
proof (induction T pat cs rule: replace_matches.induct)
  case (1 T pat cs)
  show ?case
  proof (cases "cs = [] \<or> pat = []")
    case True
    then show ?thesis by (subst replace_matches.simps) simp
  next
    case False
    show ?thesis
    proof (cases "matches_at T pat cs")
      case True
      with "1.IH"(1) False
      have "length (concat (drop (length pat) cs))
              \<le> length (replace_matches T pat (drop (length pat) cs))"
        by simp
      moreover have "length (concat cs)
          = length (concat (take (length pat) cs)) + length (concat (drop (length pat) cs))"
        by (metis concat_take_drop length_append)
      ultimately show ?thesis using True False
        by (subst replace_matches.simps) simp
    next
      case nm: False
      with "1.IH"(2) False
      have "length (concat (tl cs)) \<le> length (replace_matches T pat (tl cs))" by simp
      with nm False show ?thesis by (subst replace_matches.simps) (cases cs; simp)
    qed
  qed
qed

lemma replace_matches_longer:
  "occurs T pat cs \<Longrightarrow> pat \<noteq> [] \<Longrightarrow> length (concat cs) < length (replace_matches T pat cs)"
proof (induction T pat cs rule: replace_matches.induct)
  case (1 T pat cs)
  from "1.prems" have ne: "cs \<noteq> []" by (rule occurs_not_Nil)
  show ?case
  proof (cases "matches_at T pat cs")
    case True
    have "length (concat (drop (length pat) cs))
            \<le> length (replace_matches T pat (drop (length pat) cs))"
      by (rule replace_matches_length)
    moreover have "length (concat cs)
        = length (concat (take (length pat) cs)) + length (concat (drop (length pat) cs))"
      by (metis concat_take_drop length_append)
    ultimately show ?thesis using True ne "1.prems"(2)
      by (subst replace_matches.simps) (simp add: mark_lengths)
  next
    case nm: False
    from occurs_tl [OF "1.prems"(1) nm ne] "1.IH"(2) ne nm "1.prems"(2)
    have "length (concat (tl cs)) < length (replace_matches T pat (tl cs))" by simp
    with nm ne "1.prems"(2) show ?thesis by (subst replace_matches.simps) (cases cs; simp)
  qed
qed

lemma replace_matches_hd:
  assumes "cs \<noteq> []" "pat \<noteq> []" "wf_chunks cs"
  shows "replace_matches T pat cs \<noteq> []
         \<and> (hd (replace_matches T pat cs) = 60 \<or> hd (replace_matches T pat cs) = hd (hd cs))"
proof (cases "matches_at T pat cs")
  case True
  with assms mark_ends show ?thesis by (subst (1 2 3) replace_matches.simps) simp
next
  case False
  from assms(1,3) have "hd cs \<noteq> []" by (cases cs) auto
  with False assms show ?thesis by (subst (1 2 3) replace_matches.simps) simp
qed

lemma replace_matches_occurs:
  "occurs T pat cs \<Longrightarrow> pat \<noteq> [] \<Longrightarrow> wf_chunks cs
     \<Longrightarrow> occurs T pat (chunks (replace_matches T pat cs))"
proof (induction T pat cs rule: replace_matches.induct)
  case (1 T pat cs)
  from "1.prems"(1,2) have ne: "cs \<noteq> []" by (rule occurs_not_Nil)
  let ?k = "length pat"
  show ?case
  proof (cases "matches_at T pat cs")
    case True
    let ?m = "concat (take ?k cs)"
    let ?tail = "mark_close @ replace_matches T pat (drop ?k cs)"
    have out: "replace_matches T pat cs = mark_open @ (?m @ ?tail)"
      using True ne "1.prems"(2) by (subst replace_matches.simps) simp
    have "chunks (mark_open @ (?m @ ?tail)) = chunks mark_open @ chunks (?m @ ?tail)"
      by (rule chunks_append) (simp add: mark_ends not_surrogate_60_62)
    moreover have "chunks (?m @ ?tail) = chunks ?m @ chunks ?tail"
      by (rule chunks_append) (simp add: mark_ends not_surrogate_60_62)
    moreover have "chunks ?m = take ?k cs"
      by (rule chunks_concat) (rule wf_chunks_take [OF "1.prems"(3)])
    ultimately have ch: "chunks (replace_matches T pat cs)
        = chunks mark_open @ (take ?k cs @ chunks ?tail)"
      using out by simp
    from True have "matches_at T pat (take ?k cs @ chunks ?tail)"
      by (simp add: matches_at_def)
    then have "occurs T pat (take ?k cs @ chunks ?tail)"
      by (auto simp: occurs_def intro: exI [of _ 0])
    then show ?thesis unfolding ch by (rule occurs_append)
  next
    case nm: False
    let ?c = "hd cs"
    let ?r = "replace_matches T pat (tl cs)"
    have out: "replace_matches T pat cs = ?c @ ?r"
      using nm ne "1.prems"(2) by (subst replace_matches.simps) simp
    have wft: "wf_chunks (tl cs)" by (rule wf_chunks_tl [OF "1.prems"(3)])
    from occurs_tl [OF "1.prems"(1) nm ne] "1.IH"(2) ne nm "1.prems"(2) wft
    have occ: "occurs T pat (chunks ?r)" by simp
    have join: "?c = [] \<or> \<not> is_high (last ?c) \<or> ?r = [] \<or> \<not> is_low (hd ?r)"
    proof (cases "tl cs = []")
      case True
      then have "?r = []" by (subst replace_matches.simps) simp
      then show ?thesis by simp
    next
      case False
      from replace_matches_hd [OF False "1.prems"(2) wft, of T]
      have hd: "hd ?r = 60 \<or> hd ?r = hd (hd (tl cs))" by blast
      from ne "1.prems"(3) obtain c rest where cs: "cs = c # rest" by (cases cs) auto
      with "1.prems"(3) consider u where "c = [u]" "\<not> (is_high u \<and> rest \<noteq> [] \<and> is_low (hd (hd rest)))"
        | h l where "c = [h, l]" "is_low l" by auto
      then show ?thesis
      proof cases
        case 1
        with cs False hd show ?thesis by (auto simp: not_surrogate_60_62)
      next
        case 2
        with cs show ?thesis by (auto simp: is_low_def is_high_def)
      qed
    qed
    have "chunks (?c @ ?r) = chunks ?c @ chunks ?r" by (rule chunks_append [OF join])
    with occ out show ?thesis by (simp add: occurs_append)
  qed
qed

section \<open>The highlight renderer\<close>

text \<open>
  Claim C9, as stated, fails: the second pass wraps again what the first pass
  wrapped. The query \<open>x\<close> occurs in neither marker.
\<close>

theorem highlightAll_wraps_twice_counterexample:
  "\<not> sublist (normalize_str latin_tables (str ''x''))
       (normalize_str latin_tables (mark_open @ mark_close))
   \<and> highlightAll latin_tables (str ''x'') (str ''x'') = mark_open @ str ''x'' @ mark_close
   \<and> highlightAll latin_tables (highlightAll latin_tables (str ''x'') (str ''x'')) (str ''x'')
       = mark_open @ mark_open @ str ''x'' @ mark_close @ mark_close"
  by code_simp

text \<open>
  Claim C9, amended. \<open>highlightAll\<close> has no way of telling a span it has already
  wrapped, so for all tables, every text and every query a second pass equals
  the first exactly when the first pass wrapped nothing, that is, returned the
  text as it was. Whenever the first pass wraps a match, the second pass wraps
  more.
\<close>

theorem highlightAll_idempotent_iff_no_match:
  "highlightAll T (highlightAll T text query) query = highlightAll T text query
     \<longleftrightarrow> highlightAll T text query = text"
proof
  assume "highlightAll T text query = text"
  then show "highlightAll T (highlightAll T text query) query = highlightAll T text query"
    by simp
next
  assume idem: "highlightAll T (highlightAll T text query) query = highlightAll T text query"
  show "highlightAll T text query = text"
  proof (rule ccontr)
    let ?pat = "chunks query"
    let ?out = "replace_matches T ?pat (chunks text)"
    assume changed: "highlightAll T text query \<noteq> text"
    then have ne: "text \<noteq> []" "query \<noteq> []" and out: "highlightAll T text query = ?out"
      by (auto simp: highlightAll_def split: if_splits)
    from ne(2) have pat: "?pat \<noteq> []" by (simp add: chunks_Nil_iff)
    from changed out have "?out \<noteq> concat (chunks text)" by (simp add: concat_chunks)
    then have "occurs T ?pat (chunks text)" using replace_matches_absent by blast
    then have occ: "occurs T ?pat (chunks ?out)"
      using pat wf_chunks_chunks by (rule replace_matches_occurs)
    then have "chunks ?out \<noteq> []" using pat by (rule occurs_not_Nil)
    then have "?out \<noteq> []" by (simp add: chunks_Nil_iff)
    then have "highlightAll T ?out query = replace_matches T ?pat (chunks ?out)"
      using ne(2) by (simp add: highlightAll_def)
    with idem out have "replace_matches T ?pat (chunks ?out) = ?out" by simp
    with replace_matches_longer [OF occ pat] show False by (simp add: concat_chunks)
  qed
qed

theorem highlightAll_idempotent_iff_no_match_witness:
  "highlightAll latin_tables (highlightAll latin_tables (str ''Payment due'') (str ''x'')) (str ''x'')
     = highlightAll latin_tables (str ''Payment due'') (str ''x'')
   \<and> highlightAll latin_tables (highlightAll latin_tables (str ''Payment due'') (str ''pay'')) (str ''pay'')
     \<noteq> highlightAll latin_tables (str ''Payment due'') (str ''pay'')"
proof -
  have a: "highlightAll latin_tables (str ''Payment due'') (str ''x'') = str ''Payment due''"
    by code_simp
  have b: "highlightAll latin_tables (str ''Payment due'') (str ''pay'') \<noteq> str ''Payment due''"
    by code_simp
  from a b
    highlightAll_idempotent_iff_no_match [of latin_tables "str ''Payment due''" "str ''x''"]
    highlightAll_idempotent_iff_no_match [of latin_tables "str ''Payment due''" "str ''pay''"]
  show ?thesis by simp
qed

text \<open>
  Claim C10 fails on the code. The text is two lines, each the Turkish word for
  two in capitals (U+0130, \<open>K\<close>, U+0130); the query is that word; the mode is
  \<open>startsWith\<close>. Neither marker occurs in the text. The ranges are as long as
  the lower-cased query (5 units, for 3 in the text): the first runs from 0 to 5
  and the second from 4 to 9, so the unit at offset 4 is emitted twice, and the
  output without its markers has 8 units where the text has 7.
\<close>

theorem highlight_duplicates_text:
  "\<not> sublist mark_open [304, 75, 304, 10, 304, 75, 304]
   \<and> \<not> sublist mark_close [304, 75, 304, 10, 304, 75, 304]
   \<and> remove_markers
         (highlightByType latin_tables [304, 75, 304, 10, 304, 75, 304] [304, 75, 304] StartsWith)
       = [304, 75, 304, 10, 304, 304, 75, 304]"
  by code_simp

end
